theory Spec2Isabelle
  imports Main "HOL-Library.Multiset"
begin

section \<open>Dates\<close>

text \<open>
  The tool keeps every \<^verbatim>\<open>Date\<close> at local noon and only ever moves it by whole days
  (\<^verbatim>\<open>setDate\<close>). Such a value is modelled by its calendar day number, the number of days
  since 1970-01-01 (a Thursday). \<^verbatim>\<open>toYMD\<close> renders the day as \<^verbatim>\<open>YYYY-MM-DD\<close>; on four-digit
  years that rendering is injective and its string order is the order of the days, so the
  model keeps the day number as the key and compares keys as integers. The model takes the
  local calendar day and the rendered day to be the same day, and leaves aside an invalid
  \<^verbatim>\<open>Date\<close> (a week count that is not a number).
\<close>

type_synonym date = int
type_synonym ymd = int

definition toYMD :: "date \<Rightarrow> ymd" where
  "toYMD d = d"

definition addDays :: "date \<Rightarrow> int \<Rightarrow> date" where
  "addDays d n = d + n"

definition getDay :: "date \<Rightarrow> int" where
  "getDay d = (d + 4) mod 7"

definition rangeStart :: "date \<Rightarrow> int \<Rightarrow> date" where
  "rangeStart today numWeeks =
     (let r = today - numWeeks * 7;
          dow = getDay r
      in r - dow)"

section \<open>Strings\<close>

text \<open>
  A JavaScript string is a sequence of UTF-16 code units. The log markers contain
  characters outside ASCII, so a string is modelled as the list of its code units.
\<close>

type_synonym jstring = "nat list"

definition lit :: "string \<Rightarrow> jstring" where
  "lit s = map of_char s"

definition isDigit :: "nat \<Rightarrow> bool" where
  "isDigit c = (48 \<le> c \<and> c \<le> 57)"

text \<open>The line terminators, which the pattern \<^verbatim>\<open>.\<close> does not match.\<close>

definition isLineTerminator :: "nat \<Rightarrow> bool" where
  "isLineTerminator c = (c = 10 \<or> c = 13 \<or> c = 8232 \<or> c = 8233)"

text \<open>What \<^verbatim>\<open>trim\<close> strips: white space and line terminators.\<close>

definition isWhiteSpace :: "nat \<Rightarrow> bool" where
  "isWhiteSpace c =
     (c = 9 \<or> c = 11 \<or> c = 12 \<or> c = 32 \<or> c = 160 \<or> c = 5760
      \<or> (8192 \<le> c \<and> c \<le> 8202) \<or> c = 8239 \<or> c = 8287 \<or> c = 12288 \<or> c = 65279
      \<or> isLineTerminator c)"

definition trim :: "jstring \<Rightarrow> jstring" where
  "trim s = rev (dropWhile isWhiteSpace (rev (dropWhile isWhiteSpace s)))"

text \<open>\<^verbatim>\<open>content.split('\n')\<close>: the empty text has one (empty) line.\<close>

fun splitNL :: "jstring \<Rightarrow> jstring list" where
  "splitNL [] = [[]]"
| "splitNL (c # cs) =
     (if c = 10 then [] # splitNL cs
      else (case splitNL cs of [] \<Rightarrow> [[c]] | l # ls \<Rightarrow> (c # l) # ls))"

text \<open>\<^verbatim>\<open>lines.join('\n')\<close>, which undoes the split.\<close>

fun joinNL :: "jstring list \<Rightarrow> jstring" where
  "joinNL [] = []"
| "joinNL [l] = l"
| "joinNL (l # l' # ls) = l @ 10 # joinNL (l' # ls)"

text \<open>\<^verbatim>\<open>parseInt(digits, 10)\<close> on a run of decimal digits, as an exact natural number.\<close>

definition parseInt :: "jstring \<Rightarrow> nat" where
  "parseInt ds = foldl (\<lambda>a c. 10 * a + (c - 48)) 0 ds"

section \<open>Proof-log parser\<close>

text \<open>
  The three line patterns. A pattern anchored at the start of the line and made of
  literal code units and \<^verbatim>\<open>\d\<close> is a list of items matched against a prefix of the line.
\<close>

datatype pat = Lit nat | Digit

fun matchPrefix :: "pat list \<Rightarrow> jstring \<Rightarrow> bool" where
  "matchPrefix [] s = True"
| "matchPrefix (p # ps) [] = False"
| "matchPrefix (Lit c # ps) (x # xs) = (x = c \<and> matchPrefix ps xs)"
| "matchPrefix (Digit # ps) (x # xs) = (isDigit x \<and> matchPrefix ps xs)"

text \<open>\<^verbatim>\<open>/^### (\d{4}-\d{2}-\d{2}) (\d{2}:\d{2})-(\d{2}:\d{2}) JST/\<close>\<close>

definition SESSION_HEADER :: "pat list" where
  "SESSION_HEADER =
     map Lit (lit ''### '')
     @ [Digit, Digit, Digit, Digit, Lit 45, Digit, Digit, Lit 45, Digit, Digit]
     @ [Lit 32, Digit, Digit, Lit 58, Digit, Digit]
     @ [Lit 45, Digit, Digit, Lit 58, Digit, Digit]
     @ map Lit (lit '' JST'')"

text \<open>The result of \<^verbatim>\<open>SESSION_HEADER.exec(line)\<close>: the first group, the date, on a match.\<close>

definition execHeader :: "jstring \<Rightarrow> jstring option" where
  "execHeader line =
     (if matchPrefix SESSION_HEADER line then Some (take 10 (drop 4 line)) else None)"

text \<open>
  \<^verbatim>\<open>/^- XX: .+JST((\d+)YY)/\<close> where \<^verbatim>\<open>XX\<close> is U+3044 U+3064, the parentheses around the
  group are the full-width U+FF08 and U+FF09, and \<^verbatim>\<open>YY\<close> is U+5206. After the prefix the
  greedy \<^verbatim>\<open>.+\<close> takes one or more code units that are no line terminators, the longest
  run first, and gives them back one by one until the tail matches.
\<close>

definition DURATION_PREFIX :: jstring where
  "DURATION_PREFIX = [45, 32, 12356, 12388, 58, 32]"

definition durTail :: "jstring \<Rightarrow> nat option" where
  "durTail s =
     (if take 4 s = [74, 83, 84, 65288] then
        (let r = drop 4 s;
             ds = takeWhile isDigit r;
             rest = dropWhile isDigit r
         in if ds \<noteq> [] \<and> take 2 rest = [20998, 65289] then Some (parseInt ds) else None)
      else None)"

fun durScan :: "jstring \<Rightarrow> nat \<Rightarrow> nat option" where
  "durScan rest 0 = None"
| "durScan rest (Suc i) =
     (case durTail (drop (Suc i) rest) of
        Some v \<Rightarrow> Some v
      | None \<Rightarrow> durScan rest i)"

text \<open>\<^verbatim>\<open>DURATION_LINE.exec(line)\<close> followed by \<^verbatim>\<open>parseInt\<close> of its group.\<close>

definition execDuration :: "jstring \<Rightarrow> nat option" where
  "execDuration line =
     (if take 6 line = DURATION_PREFIX then
        (let rest = drop 6 line
         in durScan rest (length (takeWhile (\<lambda>c. \<not> isLineTerminator c) rest)))
      else None)"

text \<open>\<^verbatim>\<open>/^- ZZZ: (.+)$/\<close> where \<^verbatim>\<open>ZZZ\<close> is U+3069 U+3053 U+3067; the group is the rest of
  the line, which must be non-empty and free of line terminators.\<close>

definition WHERE_PREFIX :: jstring where
  "WHERE_PREFIX = [45, 32, 12393, 12371, 12391, 58, 32]"

definition execWhere :: "jstring \<Rightarrow> jstring option" where
  "execWhere line =
     (if take 7 line = WHERE_PREFIX then
        (let g = drop 7 line
         in if g \<noteq> [] \<and> list_all (\<lambda>c. \<not> isLineTerminator c) g then Some g else None)
      else None)"

record session =
  date :: jstring
  durationMin :: nat
  project :: "jstring option"

text \<open>
  One turn of the loop over the lines. The state is the list \<^verbatim>\<open>sessions\<close> and the
  variable \<^verbatim>\<open>current\<close> (\<open>None\<close> for \<^verbatim>\<open>null\<close>).
\<close>

definition parseStep :: "session list \<times> session option \<Rightarrow> jstring \<Rightarrow> session list \<times> session option" where
  "parseStep st raw =
     (case st of (sessions, current) \<Rightarrow>
        (let line = trim raw in
         case execHeader line of
           Some dt \<Rightarrow>
             ((case current of Some c \<Rightarrow> sessions @ [c] | None \<Rightarrow> sessions),
              Some \<lparr>date = dt, durationMin = 0, project = None\<rparr>)
         | None \<Rightarrow>
             (case current of
                None \<Rightarrow> (sessions, None)
              | Some c \<Rightarrow>
                  (case execDuration line of
                     Some n \<Rightarrow> (sessions, Some (c\<lparr>durationMin := n\<rparr>))
                   | None \<Rightarrow>
                       (case execWhere line of
                          Some g \<Rightarrow> (sessions, Some (c\<lparr>project := Some (trim g)\<rparr>))
                        | None \<Rightarrow> (sessions, Some c))))))"

text \<open>The flush after the loop.\<close>

definition flush :: "session list \<times> session option \<Rightarrow> session list" where
  "flush st = (case st of (sessions, current) \<Rightarrow>
                 (case current of Some c \<Rightarrow> sessions @ [c] | None \<Rightarrow> sessions))"

definition parseLines :: "jstring list \<Rightarrow> session list" where
  "parseLines raws = flush (foldl parseStep ([], None) raws)"

definition parseProofLog :: "jstring \<Rightarrow> session list" where
  "parseProofLog content = parseLines (splitNL content)"

section \<open>Objects used as dictionaries\<close>

text \<open>
  \<^verbatim>\<open>projectsByDate[dateStr]\<close> and \<^verbatim>\<open>allProjects\<close> are plain objects keyed by project label.
  An object is modelled by the list of its own properties in the order of their creation.
  \<^verbatim>\<open>Object.entries\<close> does not list them in that order: the own property keys of an
  ordinary object are enumerated with the array indices first, in ascending numeric order,
  and the other strings after them, in order of creation. An array index is the canonical
  decimal form of an integer from 0 to 2^32 - 2. Labels that name a member of
  \<^verbatim>\<open>Object.prototype\<close> (for which \<^verbatim>\<open>obj[label]\<close> reads an inherited value) are outside
  the model.
\<close>

type_synonym jsobj = "(jstring \<times> nat) list"

definition isArrayIndex :: "jstring \<Rightarrow> bool" where
  "isArrayIndex k =
     (k \<noteq> [] \<and> list_all isDigit k \<and> (k = [48] \<or> hd k \<noteq> 48) \<and> parseInt k < 4294967295)"

definition objEntries :: "jsobj \<Rightarrow> (jstring \<times> nat) list" where
  "objEntries obj =
     sort_key (\<lambda>e. parseInt (fst e)) (filter (\<lambda>e. isArrayIndex (fst e)) obj)
     @ filter (\<lambda>e. \<not> isArrayIndex (fst e)) obj"

text \<open>\<^verbatim>\<open>obj[k] = (obj[k] || 0) + n\<close>: an existing property keeps its place, a new one is
  created last.\<close>

fun objAdd :: "jsobj \<Rightarrow> jstring \<Rightarrow> nat \<Rightarrow> jsobj" where
  "objAdd [] k n = [(k, n)]"
| "objAdd ((k', v) # obj) k n =
     (if k' = k then (k', v + n) # obj else (k', v) # objAdd obj k n)"




text \<open>\<^verbatim>\<open>v || 0\<close> for a number that may be \<^verbatim>\<open>undefined\<close>, and \<^verbatim>\<open>obj || {}\<close>.\<close>

definition orZero :: "nat option \<Rightarrow> nat" where
  "orZero v = (case v of None \<Rightarrow> 0 | Some n \<Rightarrow> n)"

definition orEmpty :: "jsobj option \<Rightarrow> jsobj" where
  "orEmpty v = (case v of None \<Rightarrow> [] | Some obj \<Rightarrow> obj)"

section \<open>Loading the logs\<close>

text \<open>
  The log directory, as the loop sees it: for the file of each day, whether it is missing,
  is there but fails to read, or is read with some content.
\<close>

datatype logfile = Missing | Unreadable | Content jstring

datatype io_error = ReadError

definition existsSync :: "logfile \<Rightarrow> bool" where
  "existsSync f = (f \<noteq> Missing)"

definition readFileSync :: "logfile \<Rightarrow> io_error + jstring" where
  "readFileSync f = (case f of Content c \<Rightarrow> Inr c | _ \<Rightarrow> Inl ReadError)"

record load_state =
  minutesByDate :: "ymd \<rightharpoonup> nat"
  projectsByDate :: "ymd \<rightharpoonup> jsobj"

definition emptyLoad :: load_state where
  "emptyLoad = \<lparr>minutesByDate = Map.empty, projectsByDate = Map.empty\<rparr>"

text \<open>The body of the loop over the sessions of one file, for a session with a duration.\<close>

definition credit :: "ymd \<Rightarrow> session \<Rightarrow> load_state \<Rightarrow> load_state" where
  "credit dateStr s st =
     (let st1 = st\<lparr>minutesByDate := (minutesByDate st)
                   (dateStr \<mapsto> orZero (minutesByDate st dateStr) + durationMin s)\<rparr>
      in case project s of
           None \<Rightarrow> st1
         | Some p \<Rightarrow>
             if p = [] then st1
             else st1\<lparr>projectsByDate := (projectsByDate st1)
                       (dateStr \<mapsto> objAdd (orEmpty (projectsByDate st1 dateStr)) p (durationMin s))\<rparr>)"

text \<open>
  The loop over the sessions of one file. For a session without duration the source runs
  \<^verbatim>\<open>d = addDays(d, 1); continue\<close>, which moves the cursor \<^verbatim>\<open>d\<close> of the enclosing loop over
  the days; \<^verbatim>\<open>dateStr\<close> was computed before and stays.
\<close>

fun sessionLoop :: "ymd \<Rightarrow> session list \<Rightarrow> date \<times> load_state \<Rightarrow> date \<times> load_state" where
  "sessionLoop dateStr [] (d, st) = (d, st)"
| "sessionLoop dateStr (s # ss) (d, st) =
     (if durationMin s = 0 then sessionLoop dateStr ss (addDays d 1, st)
      else sessionLoop dateStr ss (d, credit dateStr s st))"

function loadLoop :: "(ymd \<Rightarrow> logfile) \<Rightarrow> ymd \<Rightarrow> date \<Rightarrow> load_state \<Rightarrow> load_state" where
  "loadLoop fs todayStr d st =
     (if toYMD d \<le> todayStr then
        (let dateStr = toYMD d in
         if existsSync (fs dateStr) then
           (case readFileSync (fs dateStr) of
              Inl e \<Rightarrow> loadLoop fs todayStr (addDays d 1) st
            | Inr content \<Rightarrow>
                (case sessionLoop dateStr (parseProofLog content) (d, st) of
                   (d', st') \<Rightarrow> loadLoop fs todayStr (addDays d' 1) st'))
         else loadLoop fs todayStr (addDays d 1) st)
      else st)"
  by pat_completeness auto
termination
  apply (relation "measure (\<lambda>(fs, todayStr, d, st). nat (todayStr + 1 - d))")
  apply (simp_all add: addDays_def toYMD_def)
  subgoal premises prems for fs todayStr d st x b xa y
  proof -
    have ge: "c \<le> fst (sessionLoop ds ss (c, s0))" for ds ss c s0
    proof (induction ss arbitrary: c s0)
      case Nil
      show ?case by simp
    next
      case (Cons s ss)
      have "c \<le> c + 1" by simp
      also have "c + 1 \<le> fst (sessionLoop ds ss (c + 1, s0))" by (rule Cons.IH)
      finally show ?case using Cons.IH [of c] by (simp add: addDays_def)
    qed
    have "xa = fst (sessionLoop d (parseProofLog b) (d, st))"
      using prems(5) by (metis fst_conv)
    then have "d \<le> xa" using ge [of d d "parseProofLog b" st] by simp
    then show ?thesis by simp
  qed
  done

declare loadLoop.simps [simp del]

section \<open>Aggregate statistics\<close>

record agg_state =
  totalMinutes :: nat
  activeDays :: nat
  longestStreak :: nat
  currentStreak :: nat
  tempStreak :: nat
  allProjects :: jsobj

definition initAgg :: agg_state where
  "initAgg = \<lparr>totalMinutes = 0, activeDays = 0, longestStreak = 0, currentStreak = 0,
              tempStreak = 0, allProjects = []\<rparr>"

text \<open>The streak bookkeeping of one day: the first half of the loop body.\<close>

definition streakStep :: "ymd \<Rightarrow> ymd \<Rightarrow> nat \<Rightarrow> agg_state \<Rightarrow> agg_state" where
  "streakStep todayStr ds mins a =
     (if mins > 0 then
        (let a1 = a\<lparr>totalMinutes := totalMinutes a + mins,
                    activeDays := activeDays a + 1,
                    tempStreak := tempStreak a + 1\<rparr>;
             a2 = (if tempStreak a1 > longestStreak a1
                   then a1\<lparr>longestStreak := tempStreak a1\<rparr> else a1)
         in if ds \<le> todayStr then a2\<lparr>currentStreak := tempStreak a2\<rparr> else a2)
      else
        (if ds < todayStr then a\<lparr>tempStreak := 0, currentStreak := 0\<rparr> else a))"

text \<open>The per-project totals of one day: the second half of the loop body.\<close>

definition projectStep :: "jsobj option \<Rightarrow> agg_state \<Rightarrow> agg_state" where
  "projectStep dayProjects a =
     (case dayProjects of
        None \<Rightarrow> a
      | Some obj \<Rightarrow>
          foldl (\<lambda>acc e. acc\<lparr>allProjects := objAdd (allProjects acc) (fst e) (snd e)\<rparr>)
                a (objEntries obj))"

definition aggStep :: "ymd \<Rightarrow> load_state \<Rightarrow> agg_state \<Rightarrow> date \<Rightarrow> agg_state" where
  "aggStep todayStr ld a datesCursor =
     (let ds = toYMD datesCursor;
          mins = orZero (minutesByDate ld ds)
      in projectStep (projectsByDate ld ds) (streakStep todayStr ds mins a))"

function aggLoop :: "ymd \<Rightarrow> load_state \<Rightarrow> date \<Rightarrow> agg_state \<Rightarrow> agg_state" where
  "aggLoop todayStr ld datesCursor a =
     (if toYMD datesCursor \<le> todayStr
      then aggLoop todayStr ld (datesCursor + 1) (aggStep todayStr ld a datesCursor)
      else a)"
  by pat_completeness auto
termination
  by (relation "measure (\<lambda>(todayStr, ld, c, a). nat (todayStr + 1 - c))")
     (simp_all add: toYMD_def)

declare aggLoop.simps [simp del]

text \<open>The days the loop visits, in order.\<close>

function visitedDates :: "ymd \<Rightarrow> date \<Rightarrow> date list" where
  "visitedDates todayStr datesCursor =
     (if toYMD datesCursor \<le> todayStr
      then datesCursor # visitedDates todayStr (datesCursor + 1)
      else [])"
  by pat_completeness auto
termination
  by (relation "measure (\<lambda>(todayStr, c). nat (todayStr + 1 - c))")
     (simp_all add: toYMD_def)

declare visitedDates.simps [simp del]



text \<open>\<^verbatim>\<open>Object.entries(allProjects).sort((a, b) => b[1] - a[1])[0]\<close>: the sort is stable
  and descending in the minutes; the first element of an empty array is \<^verbatim>\<open>undefined\<close>.\<close>

definition sortByMinutesDesc :: "(jstring \<times> nat) list \<Rightarrow> (jstring \<times> nat) list" where
  "sortByMinutesDesc es = sort_key (\<lambda>e. - int (snd e)) es"

definition topProject :: "jsobj \<Rightarrow> (jstring \<times> nat) option" where
  "topProject obj =
     (case sortByMinutesDesc (objEntries obj) of [] \<Rightarrow> None | e # _ \<Rightarrow> Some e)"

section \<open>Activity levels\<close>

definition getLevel :: "nat \<Rightarrow> nat" where
  "getLevel minutes =
     (if minutes = 0 then 0
      else if minutes < 30 then 1
      else if minutes < 120 then 2
      else if minutes < 240 then 3
      else 4)"

section \<open>Heatmap cells\<close>

definition CELL :: nat where
  "CELL = 13"

definition GAP :: nat where
  "GAP = 3"

definition STEP :: nat where
  "STEP = CELL + GAP"

text \<open>
  A cell is the \<^verbatim>\<open>rect\<close> element pushed for one day. The record holds what the template
  interpolates: the position, the level that selects the fill colour, the date, the minutes
  and, in the tooltip of an active day, the day's top project. The month labels collected
  in the same loop do not touch the cells and are left out.
\<close>

record cell =
  cellX :: nat
  cellY :: nat
  cellLevel :: nat
  dataDate :: ymd
  dataMin :: nat
  tipProject :: "jstring option"

definition mkCell :: "load_state \<Rightarrow> nat \<Rightarrow> nat \<Rightarrow> ymd \<Rightarrow> cell" where
  "mkCell ld col row ds =
     (let mins = orZero (minutesByDate ld ds);
          topProj = (case projectsByDate ld ds of
                       None \<Rightarrow> None
                     | Some obj \<Rightarrow> topProject obj)
      in \<lparr>cellX = col * STEP, cellY = row * STEP, cellLevel = getLevel mins,
          dataDate = ds, dataMin = mins,
          tipProject = (if mins > 0 then map_option fst topProj else None)\<rparr>)"

text \<open>One turn of the loop over the seven rows of a column.\<close>

definition cellStep :: "ymd \<Rightarrow> load_state \<Rightarrow> nat \<Rightarrow> date \<times> cell list \<Rightarrow> nat \<Rightarrow> date \<times> cell list" where
  "cellStep todayStr ld col st row =
     (case st of (weekCursor, cells) \<Rightarrow>
        (let ds = toYMD weekCursor in
         if ds > todayStr then (addDays weekCursor 1, cells)
         else (addDays weekCursor 1, cells @ [mkCell ld col row ds])))"

function gridLoop :: "ymd \<Rightarrow> load_state \<Rightarrow> date \<Rightarrow> cell list \<Rightarrow> nat \<Rightarrow> cell list \<times> nat" where
  "gridLoop todayStr ld weekCursor cells col =
     (if toYMD weekCursor \<le> todayStr then
        (case foldl (cellStep todayStr ld col) (weekCursor, cells) [0..<7] of
           (weekCursor', cells') \<Rightarrow> gridLoop todayStr ld weekCursor' cells' (col + 1))
      else (cells, col))"
  by pat_completeness auto
termination
  apply (relation "measure (\<lambda>(todayStr, ld, w, cells, col). nat (todayStr + 1 - w))")
   apply simp
  subgoal premises prems for todayStr ld weekCursor cells col x y
  proof -
    have adv: "fst (foldl (cellStep todayStr ld col) (w, cs) rows) = w + int (length rows)"
      for w cs rows
      by (induction rows arbitrary: w cs) (simp_all add: cellStep_def addDays_def Let_def)
    have "x = fst (foldl (cellStep todayStr ld col) (weekCursor, cells) [0..<7])"
      using prems(2) by (metis fst_conv)
    then have "x = weekCursor + 7" by (simp only: adv) simp
    then show ?thesis using prems(1) by (simp add: toYMD_def)
  qed
  done

declare gridLoop.simps [simp del]

section \<open>The run\<close>

text \<open>
  The three passes of a run over the same range, from \<^verbatim>\<open>rangeStart\<close> to today: loading,
  aggregation and cell generation. \<open>fs\<close> is the log directory, \<open>today\<close> the day of the
  run and \<open>numWeeks\<close> the week count.
\<close>

definition loadLogs :: "(ymd \<Rightarrow> logfile) \<Rightarrow> date \<Rightarrow> int \<Rightarrow> load_state" where
  "loadLogs fs today numWeeks =
     loadLoop fs (toYMD today) (rangeStart today numWeeks) emptyLoad"

definition aggregate :: "(ymd \<Rightarrow> logfile) \<Rightarrow> date \<Rightarrow> int \<Rightarrow> agg_state" where
  "aggregate fs today numWeeks =
     aggLoop (toYMD today) (loadLogs fs today numWeeks) (rangeStart today numWeeks) initAgg"

definition heatmapCells :: "(ymd \<Rightarrow> logfile) \<Rightarrow> date \<Rightarrow> int \<Rightarrow> cell list" where
  "heatmapCells fs today numWeeks =
     fst (gridLoop (toYMD today) (loadLogs fs today numWeeks) (rangeStart today numWeeks) [] 0)"

section \<open>Sample log directories\<close>

text \<open>
  Two log directories that differ in one session block. Day 19786 is 2024-03-04, a Monday;
  the header of the first file is followed by no duration line, the second file holds one
  session of 90 minutes in project alpha.
\<close>

definition emptySessionLog :: jstring where
  "emptySessionLog = lit ''### 2024-03-04 10:00-10:30 JST''"

definition alphaLog :: jstring where
  "alphaLog = lit ''### 2024-03-05 09:00-10:30 JST'' @ [10]
     @ DURATION_PREFIX @ lit ''09:00-10:30 JST'' @ [65288] @ lit ''90'' @ [20998, 65289] @ [10]
     @ WHERE_PREFIX @ lit ''alpha''"

definition logsWithEmptySession :: "ymd \<Rightarrow> logfile" where
  "logsWithEmptySession d =
     (if d = 19786 then Content emptySessionLog
      else if d = 19787 then Content alphaLog
      else Missing)"

definition logsWithoutEmptySession :: "ymd \<Rightarrow> logfile" where
  "logsWithoutEmptySession d =
     (if d = 19786 then Content []
      else if d = 19787 then Content alphaLog
      else Missing)"



section \<open>Properties\<close>

subsection \<open>Date range\<close>

lemma visitedDates_upto: "visitedDates t c = [c..t]"
proof (induction t c rule: visitedDates.induct)
  case (1 t c)
  show ?case
  proof (cases "c \<le> t")
    case True
    then have "visitedDates t c = c # visitedDates t (c + 1)"
      by (subst visitedDates.simps) (simp add: toYMD_def)
    also have "\<dots> = c # [c + 1..t]" using 1 True by (simp add: toYMD_def)
    also have "\<dots> = [c..t]" using True by (simp add: upto_rec1)
    finally show ?thesis .
  next
    case False
    then show ?thesis by (subst visitedDates.simps) (simp add: toYMD_def)
  qed
qed

lemma aggLoop_foldl: "aggLoop t ld c a = foldl (aggStep t ld) a (visitedDates t c)"
proof (induction t ld c a rule: aggLoop.induct)
  case (1 t ld c a)
  show ?case
  proof (cases "toYMD c \<le> t")
    case True
    with 1 show ?thesis
      by (subst aggLoop.simps, subst visitedDates.simps) simp
  next
    case False
    then show ?thesis by (subst aggLoop.simps, subst visitedDates.simps) simp
  qed
qed

lemma getDay_range: "0 \<le> getDay d \<and> getDay d < 7"
  by (simp add: getDay_def)

lemma getDay_rangeStart: "getDay (rangeStart today n) = 0"
  unfolding rangeStart_def getDay_def Let_def by presburger

lemma hd_upto: "i \<le> j \<Longrightarrow> hd [i..j] = i"
  by (simp add: upto_rec1)

lemma last_upto_int: "i \<le> j \<Longrightarrow> last [i..j] = j"
  by (simp add: upto_rec2)

text \<open>
  C6. For every week count and every day of the run, the range starts on the most recent
  Sunday at or before the day that lies seven times the week count before today: the first
  day is a Sunday, it is not after that day and fewer than seven days before it. The days
  visited are those from the start to today; for a week count that is not negative the
  first day visited is the start and the last is today.
\<close>

theorem rangeStart_week_boundary:
  "getDay (rangeStart today n) = 0
   \<and> rangeStart today n \<le> today - n * 7
   \<and> today - n * 7 < rangeStart today n + 7
   \<and> set (visitedDates (toYMD today) (rangeStart today n)) = {rangeStart today n .. today}
   \<and> (0 \<le> n \<longrightarrow> visitedDates (toYMD today) (rangeStart today n) \<noteq> []
        \<and> hd (visitedDates (toYMD today) (rangeStart today n)) = rangeStart today n
        \<and> last (visitedDates (toYMD today) (rangeStart today n)) = today)"
proof -
  let ?r = "today - n * 7"
  let ?s = "rangeStart today n"
  have dow: "0 \<le> getDay ?r" "getDay ?r < 7" using getDay_range [of ?r] by simp_all
  have rs: "?s = ?r - getDay ?r" by (simp add: rangeStart_def Let_def)
  have a: "getDay ?s = 0" by (rule getDay_rangeStart)
  have b: "?s \<le> ?r" and c: "?r < ?s + 7" using dow rs by linarith+
  have d: "set (visitedDates (toYMD today) ?s) = {?s .. today}"
    by (simp add: visitedDates_upto toYMD_def)
  have e: "visitedDates (toYMD today) ?s \<noteq> [] \<and> hd (visitedDates (toYMD today) ?s) = ?s
           \<and> last (visitedDates (toYMD today) ?s) = today" if "0 \<le> n"
  proof -
    from that b have "?s \<le> today" by linarith
    then show ?thesis
      by (simp add: visitedDates_upto toYMD_def hd_upto last_upto_int)
  qed
  show ?thesis using a b c d e by blast
qed

theorem rangeStart_week_boundary_witness:
  "(0::int) \<le> 1 \<and> rangeStart 19786 1 = 19778 \<and> getDay (rangeStart 19786 1) = 0
   \<and> hd (visitedDates (toYMD 19786) (rangeStart 19786 1)) = 19778
   \<and> last (visitedDates (toYMD 19786) (rangeStart 19786 1)) = 19786"
  using rangeStart_week_boundary [of 19786 1]
  by (simp add: rangeStart_def getDay_def Let_def)

subsection \<open>Streaks\<close>

lemma foldl_allProjects:
  "foldl (\<lambda>acc e. acc\<lparr>allProjects := objAdd (allProjects acc) (fst e) (snd e)\<rparr>) a es
   = a\<lparr>allProjects := foldl (\<lambda>ps e. objAdd ps (fst e) (snd e)) (allProjects a) es\<rparr>"
  by (induction es arbitrary: a) simp_all

lemma projectStep_eq:
  "projectStep dp a =
     a\<lparr>allProjects := (case dp of None \<Rightarrow> allProjects a
                        | Some obj \<Rightarrow> foldl (\<lambda>ps e. objAdd ps (fst e) (snd e)) (allProjects a)
                                        (objEntries obj))\<rparr>"
  by (cases dp) (simp_all add: projectStep_def foldl_allProjects)

lemma projectStep_fields [simp]:
  "totalMinutes (projectStep dp a) = totalMinutes a"
  "activeDays (projectStep dp a) = activeDays a"
  "longestStreak (projectStep dp a) = longestStreak a"
  "currentStreak (projectStep dp a) = currentStreak a"
  "tempStreak (projectStep dp a) = tempStreak a"
  by (simp_all add: projectStep_eq)

text \<open>
  C1. In the aggregation pass, a day with zero total minutes that is strictly before today
  resets both the running streak and the current streak to zero, and a day with zero
  minutes that is today or later leaves both as they were. The pass applies this step to
  each day up to today in turn.
\<close>

theorem zero_minute_day_streak:
  assumes "orZero (minutesByDate ld (toYMD ds)) = 0"
  shows "(toYMD ds < todayStr \<longrightarrow>
            tempStreak (aggStep todayStr ld a ds) = 0
            \<and> currentStreak (aggStep todayStr ld a ds) = 0)
       \<and> (todayStr \<le> toYMD ds \<longrightarrow>
            tempStreak (aggStep todayStr ld a ds) = tempStreak a
            \<and> currentStreak (aggStep todayStr ld a ds) = currentStreak a)
       \<and> (toYMD ds \<le> todayStr \<longrightarrow>
            aggLoop todayStr ld ds a = aggLoop todayStr ld (ds + 1) (aggStep todayStr ld a ds))"
proof -
  have "toYMD ds \<le> todayStr \<Longrightarrow>
        aggLoop todayStr ld ds a = aggLoop todayStr ld (ds + 1) (aggStep todayStr ld a ds)"
    by (subst aggLoop.simps) simp
  then show ?thesis
    using assms by (simp add: aggStep_def streakStep_def Let_def)
qed

theorem zero_minute_day_streak_witness:
  "orZero (minutesByDate emptyLoad (toYMD 5)) = 0
   \<and> toYMD 5 < (10::int)
   \<and> tempStreak (aggStep 10 emptyLoad (initAgg\<lparr>currentStreak := 3, tempStreak := 3\<rparr>) 5) = 0
   \<and> currentStreak (aggStep 10 emptyLoad (initAgg\<lparr>currentStreak := 3, tempStreak := 3\<rparr>) 5) = 0
   \<and> (10::int) \<le> toYMD 10
   \<and> tempStreak (aggStep 10 emptyLoad (initAgg\<lparr>currentStreak := 3, tempStreak := 3\<rparr>) 10) = 3
   \<and> currentStreak (aggStep 10 emptyLoad (initAgg\<lparr>currentStreak := 3, tempStreak := 3\<rparr>) 10) = 3"
  using zero_minute_day_streak [of emptyLoad 5 10 "initAgg\<lparr>currentStreak := 3, tempStreak := 3\<rparr>"]
    zero_minute_day_streak [of emptyLoad 10 10 "initAgg\<lparr>currentStreak := 3, tempStreak := 3\<rparr>"]
  by (simp add: emptyLoad_def orZero_def toYMD_def initAgg_def)

lemma streakStep_inv:
  assumes "currentStreak a \<le> tempStreak a" and "tempStreak a \<le> longestStreak a"
  shows "currentStreak (streakStep t ds m a) \<le> tempStreak (streakStep t ds m a)
       \<and> tempStreak (streakStep t ds m a) \<le> longestStreak (streakStep t ds m a)"
  using assms by (simp add: streakStep_def Let_def)

lemma aggStep_inv:
  assumes "currentStreak a \<le> tempStreak a \<and> tempStreak a \<le> longestStreak a"
  shows "currentStreak (aggStep t ld a d) \<le> tempStreak (aggStep t ld a d)
       \<and> tempStreak (aggStep t ld a d) \<le> longestStreak (aggStep t ld a d)"
  using streakStep_inv [of a t "toYMD d" "orZero (minutesByDate ld (toYMD d))"] assms
  by (simp add: aggStep_def Let_def)

lemma foldl_aggStep_inv:
  assumes "currentStreak a \<le> tempStreak a \<and> tempStreak a \<le> longestStreak a"
  shows "currentStreak (foldl (aggStep t ld) a ds) \<le> tempStreak (foldl (aggStep t ld) a ds)
       \<and> tempStreak (foldl (aggStep t ld) a ds) \<le> longestStreak (foldl (aggStep t ld) a ds)"
  using assms
proof (induction ds arbitrary: a)
  case Nil
  then show ?case by simp
next
  case (Cons d ds)
  show ?case using Cons.IH [OF aggStep_inv [OF Cons.prems]] by simp
qed

text \<open>
  C4. At every point of the aggregation pass, that is after any sequence of days processed
  from the initial counters, and in the final aggregates of a run, the longest streak is
  greater than or equal to the current streak.
\<close>

theorem longest_ge_current:
  "currentStreak (foldl (aggStep todayStr ld) initAgg ds)
     \<le> longestStreak (foldl (aggStep todayStr ld) initAgg ds)
   \<and> currentStreak (aggLoop todayStr ld start initAgg)
     \<le> longestStreak (aggLoop todayStr ld start initAgg)
   \<and> currentStreak (aggregate fs today numWeeks) \<le> longestStreak (aggregate fs today numWeeks)"
proof -
  have init: "currentStreak initAgg \<le> tempStreak initAgg
              \<and> tempStreak initAgg \<le> longestStreak initAgg"
    by (simp add: initAgg_def)
  have "currentStreak (foldl (aggStep t l) initAgg xs)
          \<le> longestStreak (foldl (aggStep t l) initAgg xs)" for t l xs
    using foldl_aggStep_inv [OF init, of t l xs] by linarith
  then show ?thesis by (simp add: aggLoop_foldl aggregate_def)
qed

subsection \<open>A run without log files\<close>

lemma loadLoop_past_end: "todayStr < d \<Longrightarrow> loadLoop fs todayStr d st = st"
  by (subst loadLoop.simps) (simp add: toYMD_def)

lemma loadLoop_skip:
  assumes "d \<le> todayStr" and "fs d = Missing \<or> fs d = Unreadable"
  shows "loadLoop fs todayStr d st = loadLoop fs todayStr (d + 1) st"
  using assms
  by (subst loadLoop.simps)
     (auto simp: toYMD_def addDays_def existsSync_def readFileSync_def Let_def)

lemma loadLoop_read:
  assumes "d \<le> todayStr" and "fs d = Content c"
  shows "loadLoop fs todayStr d st =
         loadLoop fs todayStr (fst (sessionLoop d (parseProofLog c) (d, st)) + 1)
                  (snd (sessionLoop d (parseProofLog c) (d, st)))"
  using assms
  by (subst loadLoop.simps)
     (simp add: toYMD_def addDays_def existsSync_def readFileSync_def Let_def split: prod.split)

lemma sessionLoop_cursor_ge: "c \<le> fst (sessionLoop ds ss (c, st))"
proof (induction ss arbitrary: c st)
  case Nil
  show ?case by simp
next
  case (Cons s ss)
  have "c \<le> c + 1" by simp
  also have "c + 1 \<le> fst (sessionLoop ds ss (c + 1, st))" by (rule Cons.IH)
  finally show ?case using Cons.IH [of c] by (simp add: addDays_def)
qed

lemma loadLoop_no_files:
  assumes "\<forall>k\<in>{d..todayStr}. fs k = Missing"
  shows "loadLoop fs todayStr d st = st"
  using assms
proof (induction "nat (todayStr + 1 - d)" arbitrary: d)
  case 0
  then show ?case by (simp add: loadLoop_past_end)
next
  case (Suc n)
  then have le: "d \<le> todayStr" by linarith
  with Suc.prems have "fs d = Missing" by simp
  then have "loadLoop fs todayStr d st = loadLoop fs todayStr (d + 1) st"
    using le by (simp add: loadLoop_skip)
  also have "\<dots> = st"
  proof (rule Suc.hyps(1))
    show "n = nat (todayStr + 1 - (d + 1))" using Suc.hyps(2) by linarith
    show "\<forall>k\<in>{d + 1..todayStr}. fs k = Missing" using Suc.prems by simp
  qed
  finally show ?case .
qed

lemma aggStep_empty_init: "aggStep t emptyLoad initAgg d = initAgg"
  by (simp add: aggStep_def streakStep_def projectStep_def emptyLoad_def initAgg_def
      orZero_def Let_def)

lemma foldl_aggStep_empty: "foldl (aggStep t emptyLoad) initAgg ds = initAgg"
  by (induction ds) (simp_all add: aggStep_empty_init)

lemma rowLoop_cursor:
  "fst (foldl (cellStep t ld col) (w, cs) rows) = w + int (length rows)"
  by (induction rows arbitrary: w cs) (simp_all add: cellStep_def addDays_def Let_def)

lemma rowLoop_length:
  "length (snd (foldl (cellStep t ld col) (w, cs) rows))
   = length cs + nat (min (int (length rows)) (t + 1 - w))"
proof (induction rows arbitrary: w cs)
  case Nil
  show ?case by simp
next
  case (Cons r rows)
  show ?case
  proof (cases "t < w")
    case True
    have "foldl (cellStep t ld col) (w, cs) (r # rows)
          = foldl (cellStep t ld col) (w + 1, cs) rows"
      using True by (simp add: cellStep_def addDays_def toYMD_def Let_def)
    then have "length (snd (foldl (cellStep t ld col) (w, cs) (r # rows)))
               = length cs + nat (min (int (length rows)) (t + 1 - (w + 1)))"
      by (simp only: Cons.IH)
    then show ?thesis using True by simp
  next
    case False
    have "foldl (cellStep t ld col) (w, cs) (r # rows)
          = foldl (cellStep t ld col) (w + 1, cs @ [mkCell ld col r w]) rows"
      using False by (simp add: cellStep_def addDays_def toYMD_def Let_def)
    then have "length (snd (foldl (cellStep t ld col) (w, cs) (r # rows)))
               = length (cs @ [mkCell ld col r w])
                 + nat (min (int (length rows)) (t + 1 - (w + 1)))"
      by (simp only: Cons.IH)
    moreover have "int (length (r # rows)) = int (length rows) + 1" by simp
    moreover have "length (cs @ [mkCell ld col r w]) = length cs + 1" by simp
    ultimately show ?thesis using False by arith
  qed
qed

lemma gridLoop_length:
  "length (fst (gridLoop t ld w cs col)) = length cs + nat (t + 1 - w)"
proof (induction "nat (t + 1 - w)" arbitrary: w cs col rule: less_induct)
  case less
  show ?case
  proof (cases "w \<le> t")
    case False
    then show ?thesis by (subst gridLoop.simps) (simp add: toYMD_def)
  next
    case True
    let ?r = "foldl (cellStep t ld col) (w, cs) [0..<7]"
    have unf: "gridLoop t ld w cs col = gridLoop t ld (fst ?r) (snd ?r) (col + 1)"
      using True by (subst gridLoop.simps) (simp add: toYMD_def split: prod.split)
    have f: "fst ?r = w + 7" by (simp only: rowLoop_cursor) simp
    have l: "length (snd ?r) = length cs + nat (min 7 (t + 1 - w))"
      by (simp only: rowLoop_length) simp
    have "length (fst (gridLoop t ld (w + 7) (snd ?r) (col + 1)))
          = length (snd ?r) + nat (t + 1 - (w + 7))"
      by (rule less) (use True in linarith)
    then have "length (fst (gridLoop t ld w cs col))
               = length cs + nat (min 7 (t + 1 - w)) + nat (t + 1 - (w + 7))"
      by (simp only: unf f l)
    then show ?thesis using True by arith
  qed
qed

lemma length_heatmapCells:
  "length (heatmapCells fs today n) = nat (today + 1 - rangeStart today n)"
  by (simp add: heatmapCells_def gridLoop_length toYMD_def)

lemma getDay_minus_week: "getDay (today - 1 * 7) = getDay today"
  unfolding getDay_def by presburger

lemma rangeStart_one_week: "rangeStart today 1 = today - 7 - getDay today"
  using getDay_minus_week [of today] by (simp add: rangeStart_def Let_def)

text \<open>
  C3 (as amended). For a run with the week count 1 and no log file for any day of the
  range, the total minutes, the active days, the longest streak and the current streak are
  all 0, and the grid has 8 cells plus one for each day since the last Sunday: with w the
  weekday of today counted from Sunday = 0, it has 8 + w cells, between 8 and 14.
\<close>

theorem one_week_no_files:
  assumes "\<forall>d\<in>{rangeStart today 1..today}. fs d = Missing"
  shows "totalMinutes (aggregate fs today 1) = 0
       \<and> activeDays (aggregate fs today 1) = 0
       \<and> longestStreak (aggregate fs today 1) = 0
       \<and> currentStreak (aggregate fs today 1) = 0
       \<and> length (heatmapCells fs today 1) = 8 + nat (getDay today)
       \<and> 8 \<le> length (heatmapCells fs today 1) \<and> length (heatmapCells fs today 1) \<le> 14"
proof -
  have ld: "loadLogs fs today 1 = emptyLoad"
    using assms by (simp add: loadLogs_def loadLoop_no_files toYMD_def)
  have ag: "aggregate fs today 1 = initAgg"
    by (simp add: aggregate_def ld aggLoop_foldl foldl_aggStep_empty)
  have dow: "0 \<le> getDay today" "getDay today < 7" using getDay_range [of today] by simp_all
  have len: "length (heatmapCells fs today 1) = 8 + nat (getDay today)"
    using dow by (simp add: length_heatmapCells rangeStart_one_week)
  show ?thesis using ag len dow by (simp add: initAgg_def)
qed

theorem one_week_no_files_witness:
  "totalMinutes (aggregate (\<lambda>d. Missing) 19786 1) = 0
   \<and> activeDays (aggregate (\<lambda>d. Missing) 19786 1) = 0
   \<and> longestStreak (aggregate (\<lambda>d. Missing) 19786 1) = 0
   \<and> currentStreak (aggregate (\<lambda>d. Missing) 19786 1) = 0
   \<and> length (heatmapCells (\<lambda>d. Missing) 19786 1) = 9"
  using one_week_no_files [of 19786 "\<lambda>d. Missing"]
  by (simp add: getDay_def)

text \<open>
  The specification asks for exactly 7 cells. On a Sunday (day 19785 is 2024-03-03) the
  range of a one-week run is that Sunday and the seven days before it.
\<close>

theorem one_week_cells_counterexample:
  "length (heatmapCells (\<lambda>d. Missing) 19785 1) = 8
   \<and> length (heatmapCells (\<lambda>d. Missing) 19785 1) \<noteq> 7"
  by (simp add: length_heatmapCells rangeStart_def getDay_def Let_def)

subsection \<open>Sessions of one file\<close>

lemma credit_other:
  "k \<noteq> ds \<Longrightarrow> minutesByDate (credit ds s st) k = minutesByDate st k
                \<and> projectsByDate (credit ds s st) k = projectsByDate st k"
  by (simp add: credit_def Let_def split: option.split)

lemma sessionLoop_other:
  "k \<noteq> ds \<Longrightarrow> minutesByDate (snd (sessionLoop ds ss (c, st))) k = minutesByDate st k
                \<and> projectsByDate (snd (sessionLoop ds ss (c, st))) k = projectsByDate st k"
  by (induction ss arbitrary: c st) (simp_all add: credit_other)

lemma credit_minutes:
  "orZero (minutesByDate (credit ds s st) ds) = orZero (minutesByDate st ds) + durationMin s"
  by (simp add: credit_def Let_def orZero_def split: option.split)

lemma sessionLoop_minutes:
  "orZero (minutesByDate (snd (sessionLoop ds ss (c, st))) ds)
   = orZero (minutesByDate st ds) + sum_list (map durationMin ss)"
  by (induction ss arbitrary: c st) (simp_all add: credit_minutes)

lemma credit_date_irrelevant: "credit ds (s\<lparr>date := x\<rparr>) st = credit ds s st"
  by (simp add: credit_def Let_def split: option.split)

lemma sessionLoop_date_irrelevant:
  "sessionLoop ds (map (\<lambda>s. s\<lparr>date := g s\<rparr>) ss) (c, st) = sessionLoop ds ss (c, st)"
  by (induction ss arbitrary: c st) (simp_all add: credit_date_irrelevant)

lemma objAdd_lookup:
  "orZero (map_of (objAdd obj k n) p) = orZero (map_of obj p) + (if p = k then n else 0)"
  by (induction obj k n rule: objAdd.induct) (auto simp: orZero_def)

lemma credit_project:
  "p \<noteq> [] \<Longrightarrow>
   orZero (map_of (orEmpty (projectsByDate (credit ds s st) ds)) p)
   = orZero (map_of (orEmpty (projectsByDate st ds)) p)
     + (if project s = Some p then durationMin s else 0)"
  by (auto simp: credit_def Let_def orEmpty_def objAdd_lookup split: option.split)

lemma sessionLoop_project:
  "p \<noteq> [] \<Longrightarrow>
   orZero (map_of (orEmpty (projectsByDate (snd (sessionLoop ds ss (c, st))) ds)) p)
   = orZero (map_of (orEmpty (projectsByDate st ds)) p)
     + sum_list (map durationMin (filter (\<lambda>s. project s = Some p) ss))"
  by (induction ss arbitrary: c st) (simp_all add: credit_project)

text \<open>
  C10. The minutes and the project label of every parsed session are credited to the day of
  the file being scanned and never to the date in the session's header: replacing the
  header dates by any others changes nothing, the file's day gains the sum of all the
  durations, each label gains on that day the durations of its sessions, no other day is
  touched, and the loop over the days passes the day of the file it has read.
\<close>

theorem sessions_credited_to_file_date:
  "sessionLoop dateStr (map (\<lambda>s. s\<lparr>date := g s\<rparr>) ss) (d, st) = sessionLoop dateStr ss (d, st)
   \<and> orZero (minutesByDate (snd (sessionLoop dateStr ss (d, st))) dateStr)
       = orZero (minutesByDate st dateStr) + sum_list (map durationMin ss)
   \<and> (p \<noteq> [] \<longrightarrow>
        orZero (map_of (orEmpty (projectsByDate (snd (sessionLoop dateStr ss (d, st))) dateStr)) p)
        = orZero (map_of (orEmpty (projectsByDate st dateStr)) p)
          + sum_list (map durationMin (filter (\<lambda>s. project s = Some p) ss)))
   \<and> (k \<noteq> dateStr \<longrightarrow>
        minutesByDate (snd (sessionLoop dateStr ss (d, st))) k = minutesByDate st k
        \<and> projectsByDate (snd (sessionLoop dateStr ss (d, st))) k = projectsByDate st k)
   \<and> (d \<le> todayStr \<and> fs d = Content c \<longrightarrow>
        loadLoop fs todayStr d st =
        loadLoop fs todayStr (fst (sessionLoop d (parseProofLog c) (d, st)) + 1)
                 (snd (sessionLoop d (parseProofLog c) (d, st))))"
  using sessionLoop_date_irrelevant [of dateStr g ss d st]
    sessionLoop_minutes [of dateStr ss d st]
    sessionLoop_project [of p dateStr ss d st]
    sessionLoop_other [of k dateStr ss d st]
    loadLoop_read [of d todayStr fs c st]
  by blast

theorem sessions_credited_to_file_date_witness:
  "orZero (minutesByDate (snd (sessionLoop 19786
      [\<lparr>date = lit ''1999-01-01'', durationMin = 90, project = Some (lit ''alpha'')\<rparr>]
      (19786, emptyLoad))) 19786) = 90
   \<and> lit ''alpha'' \<noteq> []
   \<and> orZero (map_of (orEmpty (projectsByDate (snd (sessionLoop 19786
      [\<lparr>date = lit ''1999-01-01'', durationMin = 90, project = Some (lit ''alpha'')\<rparr>]
      (19786, emptyLoad))) 19786)) (lit ''alpha'')) = 90
   \<and> (10592::int) \<noteq> 19786
   \<and> minutesByDate (snd (sessionLoop 19786
      [\<lparr>date = lit ''1999-01-01'', durationMin = 90, project = Some (lit ''alpha'')\<rparr>]
      (19786, emptyLoad))) 10592 = None"
  using sessions_credited_to_file_date [of 19786 "\<lambda>s. date s"
      "[\<lparr>date = lit ''1999-01-01'', durationMin = 90, project = Some (lit ''alpha'')\<rparr>]"
      19786 emptyLoad "lit ''alpha''" 10592 19786 "\<lambda>d. Missing" "[]"]
  by (simp add: emptyLoad_def orZero_def orEmpty_def lit_def)

subsection \<open>Missing and unreadable files\<close>

lemma loadLoop_other:
  assumes "fs k = Missing \<or> fs k = Unreadable"
  shows "minutesByDate (loadLoop fs t c st) k = minutesByDate st k
       \<and> projectsByDate (loadLoop fs t c st) k = projectsByDate st k"
proof (induction "nat (t + 1 - c)" arbitrary: c st rule: less_induct)
  case less
  show ?case
  proof (cases "c \<le> t")
    case False
    then show ?thesis by (simp add: loadLoop_past_end)
  next
    case True
    show ?thesis
    proof (cases "fs c")
      case (Content x)
      let ?r = "sessionLoop c (parseProofLog x) (c, st)"
      have ne: "k \<noteq> c" using assms Content by auto
      have ge: "c \<le> fst ?r" by (rule sessionLoop_cursor_ge)
      have "minutesByDate (loadLoop fs t (fst ?r + 1) (snd ?r)) k = minutesByDate (snd ?r) k
          \<and> projectsByDate (loadLoop fs t (fst ?r + 1) (snd ?r)) k = projectsByDate (snd ?r) k"
        by (rule less) (use True ge in linarith)
      then show ?thesis
        using sessionLoop_other [OF ne, of "parseProofLog x" c st] True Content
        by (simp add: loadLoop_read)
    next
      case Missing
      have "minutesByDate (loadLoop fs t (c + 1) st) k = minutesByDate st k
          \<and> projectsByDate (loadLoop fs t (c + 1) st) k = projectsByDate st k"
        by (rule less) (use True in linarith)
      then show ?thesis using True Missing by (simp add: loadLoop_skip)
    next
      case Unreadable
      have "minutesByDate (loadLoop fs t (c + 1) st) k = minutesByDate st k
          \<and> projectsByDate (loadLoop fs t (c + 1) st) k = projectsByDate st k"
        by (rule less) (use True in linarith)
      then show ?thesis using True Unreadable by (simp add: loadLoop_skip)
    qed
  qed
qed

lemma loadLoop_unreadable_as_missing:
  assumes "fs k = Missing \<or> fs k = Unreadable"
  shows "loadLoop (fs(k := Missing)) t c st = loadLoop fs t c st"
proof (induction "nat (t + 1 - c)" arbitrary: c st rule: less_induct)
  case less
  show ?case
  proof (cases "c \<le> t")
    case False
    then show ?thesis by (simp add: loadLoop_past_end)
  next
    case True
    show ?thesis
    proof (cases "fs c")
      case (Content x)
      let ?r = "sessionLoop c (parseProofLog x) (c, st)"
      have ne: "k \<noteq> c" using assms Content by auto
      have ge: "c \<le> fst ?r" by (rule sessionLoop_cursor_ge)
      have "loadLoop (fs(k := Missing)) t (fst ?r + 1) (snd ?r)
            = loadLoop fs t (fst ?r + 1) (snd ?r)"
        by (rule less) (use True ge in linarith)
      then show ?thesis
        using True Content ne
        by (simp add: loadLoop_read [of c t fs x] loadLoop_read [of c t "fs(k := Missing)" x])
    next
      case Missing
      have "loadLoop (fs(k := Missing)) t (c + 1) st = loadLoop fs t (c + 1) st"
        by (rule less) (use True in linarith)
      then show ?thesis
        using True Missing
        by (simp add: loadLoop_skip [of c t fs] loadLoop_skip [of c t "fs(k := Missing)"])
    next
      case Unreadable
      have "loadLoop (fs(k := Missing)) t (c + 1) st = loadLoop fs t (c + 1) st"
        by (rule less) (use True in linarith)
      then show ?thesis
        using True Unreadable
        by (simp add: loadLoop_skip [of c t fs] loadLoop_skip [of c t "fs(k := Missing)"])
    qed
  qed
qed

text \<open>
  C9. A day of the range whose log file is missing or fails to read does not stop the run
  (the read error ends in the handler, and the loop goes on): the day gets a total of 0 and
  no project, it adds nothing to the total minutes or to the active days and its cell has
  level 0, and the loaded totals, the aggregates and the cells are those of the run in
  which the file is absent.
\<close>

theorem unreadable_file_skipped:
  assumes "fs d = Missing \<or> fs d = Unreadable"
  shows "orZero (minutesByDate (loadLogs fs today n) d) = 0
       \<and> projectsByDate (loadLogs fs today n) d = None
       \<and> totalMinutes (aggStep todayStr (loadLogs fs today n) a d) = totalMinutes a
       \<and> activeDays (aggStep todayStr (loadLogs fs today n) a d) = activeDays a
       \<and> cellLevel (mkCell (loadLogs fs today n) col row d) = 0
       \<and> loadLogs fs today n = loadLogs (fs(d := Missing)) today n
       \<and> aggregate fs today n = aggregate (fs(d := Missing)) today n
       \<and> heatmapCells fs today n = heatmapCells (fs(d := Missing)) today n"
proof -
  have same: "loadLogs (fs(d := Missing)) today n = loadLogs fs today n"
    using assms by (simp add: loadLogs_def loadLoop_unreadable_as_missing)
  have none: "minutesByDate (loadLogs fs today n) d = None"
             "projectsByDate (loadLogs fs today n) d = None"
    using loadLoop_other [of fs d "toYMD today" "rangeStart today n" emptyLoad] assms
    by (simp_all add: loadLogs_def emptyLoad_def)
  show ?thesis
    using none
    by (simp add: same aggregate_def heatmapCells_def orZero_def aggStep_def streakStep_def
        toYMD_def mkCell_def getLevel_def Let_def)
qed

theorem unreadable_file_skipped_witness:
  "orZero (minutesByDate (loadLogs (logsWithoutEmptySession(19788 := Unreadable)) 19791 1) 19788) = 0
   \<and> loadLogs (logsWithoutEmptySession(19788 := Unreadable)) 19791 1
       = loadLogs (logsWithoutEmptySession(19788 := Missing)) 19791 1"
proof -
  have h: "(logsWithoutEmptySession(19788 := Unreadable)) 19788 = Missing
           \<or> (logsWithoutEmptySession(19788 := Unreadable)) 19788 = Unreadable"
    by simp
  have u: "(logsWithoutEmptySession(19788 := Unreadable))(19788 := Missing)
           = logsWithoutEmptySession(19788 := Missing)"
    by simp
  show ?thesis
    using unreadable_file_skipped [of "logsWithoutEmptySession(19788 := Unreadable)" 19788
        19791 1 19791 initAgg 0 0, OF h]
    unfolding u by blast
qed

subsection \<open>Sessions without duration\<close>

lemmas parse_defs =
  lit_def trim_def execHeader_def execDuration_def execWhere_def SESSION_HEADER_def
  isWhiteSpace_def isLineTerminator_def isDigit_def durTail_def DURATION_PREFIX_def
  WHERE_PREFIX_def parseInt_def parseProofLog_def parseLines_def parseStep_def flush_def

lemma parse_emptySessionLog:
  "parseProofLog emptySessionLog = [\<lparr>date = lit ''2024-03-04'', durationMin = 0, project = None\<rparr>]"
  by (simp add: emptySessionLog_def parse_defs)

lemma parse_alphaLog:
  "parseProofLog alphaLog = [\<lparr>date = lit ''2024-03-05'', durationMin = 90, project = Some (lit ''alpha'')\<rparr>]"
  by (simp add: alphaLog_def parse_defs)

lemma parse_empty: "parseProofLog [] = []"
  by (simp add: parse_defs)

lemma load_with:
  "loadLogs logsWithEmptySession 19791 1 = emptyLoad"
  by (simp add: loadLogs_def rangeStart_def getDay_def toYMD_def Let_def
      logsWithEmptySession_def loadLoop_skip loadLoop_read loadLoop_past_end
      parse_emptySessionLog parse_alphaLog addDays_def)

lemma load_without:
  "loadLogs logsWithoutEmptySession 19791 1 =
     \<lparr>minutesByDate = [19787 \<mapsto> 90], projectsByDate = [19787 \<mapsto> [(lit ''alpha'', 90)]]\<rparr>"
  by (simp add: loadLogs_def rangeStart_def getDay_def toYMD_def Let_def
      logsWithoutEmptySession_def loadLoop_skip loadLoop_read loadLoop_past_end
      parse_empty parse_alphaLog addDays_def credit_def emptyLoad_def orZero_def orEmpty_def
      lit_def)

text \<open>
  C2. A session with zero or missing duration should leave every aggregate as it is
  without the session. The run on the two sample directories shows that it does not: with
  the session block in the file of 2024-03-04 the file of 2024-03-05 is never read, and
  its 90 minutes are lost; without the block they are counted.
\<close>

theorem zero_duration_session_skips_next_day:
  "map durationMin (parseProofLog emptySessionLog) = [0]
   \<and> map durationMin (parseProofLog alphaLog) = [90]
   \<and> orZero (minutesByDate (loadLogs logsWithEmptySession 19791 1) 19787) = 0
   \<and> orZero (minutesByDate (loadLogs logsWithoutEmptySession 19791 1) 19787) = 90
   \<and> totalMinutes (aggregate logsWithEmptySession 19791 1) = 0
   \<and> totalMinutes (aggregate logsWithoutEmptySession 19791 1) = 90"
  by (simp add: parse_emptySessionLog parse_alphaLog
      aggregate_def load_with load_without aggLoop_foldl foldl_aggStep_empty
      visitedDates_upto upto_rec1
      rangeStart_def getDay_def toYMD_def Let_def orZero_def emptyLoad_def
      aggStep_def streakStep_def projectStep_def initAgg_def objEntries_def isArrayIndex_def lit_def isDigit_def)

subsection \<open>Parser\<close>

lemma parseStep_header:
  "execHeader (trim raw) = Some dt \<Longrightarrow>
   parseStep (ss, cur) raw = (flush (ss, cur), Some \<lparr>date = dt, durationMin = 0, project = None\<rparr>)"
  by (simp add: parseStep_def flush_def Let_def)

lemma parseStep_no_header_dates:
  "execHeader (trim raw) = None \<Longrightarrow>
   map date (flush (parseStep (ss, cur) raw)) = map date (flush (ss, cur))"
  by (simp add: parseStep_def flush_def Let_def split: option.split)

lemma parseStep_unmatched:
  "execHeader (trim raw) = None \<Longrightarrow> execDuration (trim raw) = None \<Longrightarrow>
   execWhere (trim raw) = None \<Longrightarrow> parseStep st raw = st"
  by (cases st) (simp add: parseStep_def Let_def split: option.split)

lemma parseStep_before_header:
  "execHeader (trim raw) = None \<Longrightarrow> parseStep (ss, None) raw = (ss, None)"
  by (simp add: parseStep_def Let_def)

lemma foldl_parseStep_dates:
  "map date (flush (foldl parseStep (ss, cur) raws))
   = map date (flush (ss, cur)) @ List.map_filter (\<lambda>raw. execHeader (trim raw)) raws"
proof (induction raws arbitrary: ss cur)
  case Nil
  show ?case by (simp add: List.map_filter_simps)
next
  case (Cons raw raws)
  show ?case
  proof (cases "execHeader (trim raw)")
    case None
    obtain ss' cur' where st: "parseStep (ss, cur) raw = (ss', cur')" by (cases "parseStep (ss, cur) raw")
    have "map date (flush (ss', cur')) = map date (flush (ss, cur))"
      using parseStep_no_header_dates [OF None, of ss cur] st by simp
    then show ?thesis using Cons.IH [of ss' cur'] st None by (simp add: List.map_filter_simps)
  next
    case (Some dt)
    have "map date (flush (flush (ss, cur), Some \<lparr>date = dt, durationMin = 0, project = None\<rparr>))
          = map date (flush (ss, cur)) @ [dt]"
      by (simp add: flush_def)
    then show ?thesis
      using Cons.IH [of "flush (ss, cur)" "Some \<lparr>date = dt, durationMin = 0, project = None\<rparr>"] Some
      by (simp add: parseStep_header List.map_filter_simps)
  qed
qed

lemma parseLines_dates:
  "map date (parseLines raws) = List.map_filter (\<lambda>raw. execHeader (trim raw)) raws"
  using foldl_parseStep_dates [of "[]" None raws] by (simp add: parseLines_def flush_def)

lemma parseStep_prefix:
  "parseStep (ss, cur) raw
   = (ss @ fst (parseStep ([], cur) raw), snd (parseStep ([], cur) raw))"
  by (simp add: parseStep_def Let_def split: option.split)

lemma foldl_parseStep_prefix:
  "foldl parseStep (ss, cur) raws
   = (ss @ fst (foldl parseStep ([], cur) raws), snd (foldl parseStep ([], cur) raws))"
proof (induction raws arbitrary: ss cur)
  case Nil
  show ?case by simp
next
  case (Cons raw raws)
  obtain a c where one: "parseStep ([], cur) raw = (a, c)" by (cases "parseStep ([], cur) raw")
  have step: "parseStep (ss, cur) raw = (ss @ a, c)"
    using parseStep_prefix [of ss cur raw] one by simp
  show ?case
    using Cons.IH [of "ss @ a" c] Cons.IH [of a c] one step by simp
qed

lemma flush_foldl_prefix:
  "flush (foldl parseStep (ss, cur) raws) = ss @ flush (foldl parseStep ([], cur) raws)"
proof -
  obtain a c where r: "foldl parseStep ([], cur) raws = (a, c)"
    by (cases "foldl parseStep ([], cur) raws")
  then have "foldl parseStep (ss, cur) raws = (ss @ a, c)"
    using foldl_parseStep_prefix [of ss cur raws] by simp
  then show ?thesis using r by (simp add: flush_def split: option.split)
qed

lemma parseLines_header_split:
  assumes "execHeader (trim h) = Some dt"
  shows "parseLines (xs @ h # ys) = parseLines xs @ parseLines (h # ys)"
proof -
  let ?new = "Some \<lparr>date = dt, durationMin = 0, project = None\<rparr>"
  obtain ss cur where st: "foldl parseStep ([], None) xs = (ss, cur)"
    by (cases "foldl parseStep ([], None) xs")
  have "parseLines (xs @ h # ys) = flush (foldl parseStep (flush (ss, cur), ?new) ys)"
    using st assms by (simp add: parseLines_def parseStep_header)
  also have "\<dots> = flush (ss, cur) @ flush (foldl parseStep ([], ?new) ys)"
    by (rule flush_foldl_prefix)
  also have "flush (foldl parseStep ([], ?new) ys) = parseLines (h # ys)"
    using assms by (simp add: parseLines_def parseStep_header flush_def)
  finally show ?thesis using st by (simp add: parseLines_def)
qed

lemma parseLines_last_header:
  assumes "execHeader (trim h) = Some dt"
  shows "parseLines (xs @ [h]) = parseLines xs @ [\<lparr>date = dt, durationMin = 0, project = None\<rparr>]"
  using parseLines_header_split [OF assms, of xs "[]"] assms
  by (simp add: parseLines_def parseStep_header flush_def)

lemma parseLines_unmatched:
  assumes "execHeader (trim l) = None" "execDuration (trim l) = None" "execWhere (trim l) = None"
  shows "parseLines (xs @ l # ys) = parseLines (xs @ ys)"
  using assms by (simp add: parseLines_def parseStep_unmatched)

lemma parseLines_before_header:
  assumes "\<forall>l\<in>set pre. execHeader (trim l) = None"
  shows "parseLines (pre @ ys) = parseLines ys"
proof -
  have "foldl parseStep ([], None) pre = ([], None)"
    using assms by (induction pre) (simp_all add: parseStep_before_header)
  then show ?thesis by (simp add: parseLines_def)
qed

lemma length_map_filter:
  "length (List.map_filter f xs) = length (filter (\<lambda>x. f x \<noteq> None) xs)"
  by (simp add: List.map_filter_def)

lemma splitNL_nonempty: "splitNL s \<noteq> []"
  by (induction s) (simp_all split: list.split)

lemma splitNL_no_newline: "l \<in> set (splitNL s) \<Longrightarrow> 10 \<notin> set l"
proof (induction s arbitrary: l)
  case Nil
  then show ?case by simp
next
  case (Cons c s)
  obtain l' ls where sp: "splitNL s = l' # ls"
    using splitNL_nonempty [of s] by (cases "splitNL s") auto
  show ?case
  proof (cases "c = 10")
    case True
    then show ?thesis using Cons by auto
  next
    case False
    then have "l = c # l' \<or> l \<in> set ls" using Cons.prems sp by simp
    moreover have "10 \<notin> set l'" using Cons.IH [of l'] sp by simp
    moreover have "l \<in> set ls \<Longrightarrow> 10 \<notin> set l" using Cons.IH [of l] sp by simp
    ultimately show ?thesis using False by auto
  qed
qed

lemma joinNL_Cons: "ls \<noteq> [] \<Longrightarrow> joinNL (l # ls) = l @ 10 # joinNL ls"
  by (cases ls) simp_all

lemma joinNL_splitNL: "joinNL (splitNL s) = s"
proof (induction s)
  case Nil
  show ?case by simp
next
  case (Cons c s)
  obtain l' ls where sp: "splitNL s = l' # ls"
    using splitNL_nonempty [of s] by (cases "splitNL s") auto
  show ?case
  proof (cases "c = 10")
    case True
    then show ?thesis using Cons splitNL_nonempty [of s] by (simp add: joinNL_Cons)
  next
    case False
    have "joinNL ((c # l') # ls) = c # joinNL (l' # ls)" by (cases ls) simp_all
    then show ?thesis using False Cons sp by simp
  qed
qed

lemma splitNL_line: "10 \<notin> set l \<Longrightarrow> splitNL l = [l]"
  by (induction l) simp_all

lemma splitNL_line_newline:
  "10 \<notin> set l \<Longrightarrow> splitNL (l @ 10 # s) = l # splitNL s"
  by (induction l) simp_all

lemma splitNL_joinNL:
  "ls \<noteq> [] \<Longrightarrow> \<forall>l\<in>set ls. 10 \<notin> set l \<Longrightarrow> splitNL (joinNL ls) = ls"
proof (induction ls rule: joinNL.induct)
  case 1
  then show ?case by simp
next
  case (2 l)
  then show ?case by (simp add: splitNL_line)
next
  case (3 l l' ls)
  then show ?case by (simp add: splitNL_line_newline)
qed

text \<open>
  C5. For every input text the parser returns one session per header line, in the order
  of the lines, each with the date of its header. A header line closes the session in
  progress and begins a new one, so the result for the lines up to the header is followed
  by the result from the header on, and a header at the end of the input still yields its
  session. A line that matches no pattern can be dropped without changing the result, and
  so can all the lines before the first header. The lines of a text are its pieces between
  the newlines: none contains a newline, joined by newlines they give the text back, and
  every such sequence of lines is the split of its join.
\<close>

theorem one_session_per_header:
  "map date (parseProofLog content)
     = List.map_filter (\<lambda>raw. execHeader (trim raw)) (splitNL content)
   \<and> length (parseProofLog content)
     = length (filter (\<lambda>raw. execHeader (trim raw) \<noteq> None) (splitNL content))
   \<and> (execHeader (trim h) = Some dt \<longrightarrow>
        parseLines (xs @ h # ys) = parseLines xs @ parseLines (h # ys)
        \<and> parseLines (xs @ [h])
            = parseLines xs @ [\<lparr>date = dt, durationMin = 0, project = None\<rparr>])
   \<and> (execHeader (trim l) = None \<and> execDuration (trim l) = None \<and> execWhere (trim l) = None
        \<longrightarrow> parseLines (xs @ l # ys) = parseLines (xs @ ys))
   \<and> ((\<forall>r\<in>set pre. execHeader (trim r) = None) \<longrightarrow> parseLines (pre @ ys) = parseLines ys)
   \<and> parseProofLog content = parseLines (splitNL content)
   \<and> splitNL content \<noteq> []
   \<and> (\<forall>r\<in>set (splitNL content). 10 \<notin> set r)
   \<and> joinNL (splitNL content) = content
   \<and> (ls \<noteq> [] \<and> (\<forall>r\<in>set ls. 10 \<notin> set r) \<longrightarrow> splitNL (joinNL ls) = ls)"
proof -
  have d: "map date (parseProofLog content)
           = List.map_filter (\<lambda>raw. execHeader (trim raw)) (splitNL content)"
    by (simp add: parseProofLog_def parseLines_dates)
  have "length (parseProofLog content) = length (map date (parseProofLog content))" by simp
  also have "\<dots> = length (filter (\<lambda>raw. execHeader (trim raw) \<noteq> None) (splitNL content))"
    by (simp only: d length_map_filter)
  finally have n: "length (parseProofLog content)
           = length (filter (\<lambda>raw. execHeader (trim raw) \<noteq> None) (splitNL content))" .
  have sp: "\<forall>r\<in>set (splitNL content). 10 \<notin> set r"
    using splitNL_no_newline [of _ content] by blast
  have p: "parseProofLog content = parseLines (splitNL content)"
    by (simp add: parseProofLog_def)
  show ?thesis
    using d n p sp parseLines_header_split [of h dt xs ys] parseLines_last_header [of h dt xs]
      parseLines_unmatched [of l xs ys] parseLines_before_header [of pre ys]
      splitNL_nonempty [of content] joinNL_splitNL [of content] splitNL_joinNL [of ls]
    by blast
qed

theorem one_session_per_header_witness:
  "execHeader (trim (lit ''### 2024-03-04 10:00-10:30 JST'')) = Some (lit ''2024-03-04'')
   \<and> parseLines ([lit ''notes''] @ [lit ''### 2024-03-04 10:00-10:30 JST''])
       = parseLines [lit ''notes'']
         @ [\<lparr>date = lit ''2024-03-04'', durationMin = 0, project = None\<rparr>]
   \<and> execHeader (trim (lit ''notes'')) = None
   \<and> execDuration (trim (lit ''notes'')) = None
   \<and> execWhere (trim (lit ''notes'')) = None
   \<and> parseLines ([lit ''notes''] @ lit ''notes'' # [lit ''### 2024-03-04 10:00-10:30 JST''])
       = parseLines ([lit ''notes''] @ [lit ''### 2024-03-04 10:00-10:30 JST''])
   \<and> parseLines ([lit ''notes''] @ [lit ''### 2024-03-04 10:00-10:30 JST''])
       = parseLines [lit ''### 2024-03-04 10:00-10:30 JST'']
   \<and> splitNL (joinNL [lit ''notes'', lit ''### 2024-03-04 10:00-10:30 JST''])
       = [lit ''notes'', lit ''### 2024-03-04 10:00-10:30 JST'']
   \<and> map date (parseProofLog alphaLog) = [lit ''2024-03-05'']
   \<and> length (splitNL alphaLog) = 3"
proof -
  have h: "execHeader (trim (lit ''### 2024-03-04 10:00-10:30 JST'')) = Some (lit ''2024-03-04'')"
    by (simp add: parse_defs)
  have n: "execHeader (trim (lit ''notes'')) = None" "execDuration (trim (lit ''notes'')) = None"
    "execWhere (trim (lit ''notes'')) = None"
    by (simp_all add: parse_defs)
  have b: "\<forall>r\<in>set [lit ''notes'']. execHeader (trim r) = None" using n by simp
  have nl: "[lit ''notes'', lit ''### 2024-03-04 10:00-10:30 JST''] \<noteq> []
            \<and> (\<forall>r\<in>set [lit ''notes'', lit ''### 2024-03-04 10:00-10:30 JST'']. 10 \<notin> set r)"
    by (simp add: lit_def)
  have a: "map date (parseProofLog alphaLog) = [lit ''2024-03-05'']"
    by (simp add: parse_alphaLog)
  have a3: "length (splitNL alphaLog) = 3"
    by (simp add: alphaLog_def lit_def DURATION_PREFIX_def WHERE_PREFIX_def)
  have w1: "parseLines ([lit ''notes''] @ [lit ''### 2024-03-04 10:00-10:30 JST''])
       = parseLines [lit ''notes'']
         @ [\<lparr>date = lit ''2024-03-04'', durationMin = 0, project = None\<rparr>]
     \<and> parseLines ([lit ''notes''] @ [lit ''### 2024-03-04 10:00-10:30 JST''])
       = parseLines [lit ''### 2024-03-04 10:00-10:30 JST'']
     \<and> splitNL (joinNL [lit ''notes'', lit ''### 2024-03-04 10:00-10:30 JST''])
       = [lit ''notes'', lit ''### 2024-03-04 10:00-10:30 JST'']"
    using h n b nl
      one_session_per_header [where content = alphaLog
        and h = "lit ''### 2024-03-04 10:00-10:30 JST''" and dt = "lit ''2024-03-04''"
        and xs = "[lit ''notes'']" and ys = "[lit ''### 2024-03-04 10:00-10:30 JST'']"
        and l = "lit ''notes''" and pre = "[lit ''notes'']"
        and ls = "[lit ''notes'', lit ''### 2024-03-04 10:00-10:30 JST'']"]
    by blast
  have w2: "parseLines ([lit ''notes''] @ lit ''notes'' # [lit ''### 2024-03-04 10:00-10:30 JST''])
       = parseLines ([lit ''notes''] @ [lit ''### 2024-03-04 10:00-10:30 JST''])"
    using n
      one_session_per_header [where content = alphaLog
        and h = "lit ''### 2024-03-04 10:00-10:30 JST''" and dt = "lit ''2024-03-04''"
        and xs = "[lit ''notes'']" and ys = "[lit ''### 2024-03-04 10:00-10:30 JST'']"
        and l = "lit ''notes''" and pre = "[lit ''notes'']"
        and ls = "[lit ''notes'', lit ''### 2024-03-04 10:00-10:30 JST'']"]
    by blast
  show ?thesis using h n a a3 w1 w2 by blast
qed

subsection \<open>Top project\<close>


































subsection \<open>Activity levels\<close>

text \<open>
  C7. The activity level is a function of the day's minutes alone, given by the threshold
  table: 0 minutes is level 0, fewer than 30 is level 1, fewer than 120 is level 2, fewer
  than 240 is level 3, and 240 or more is level 4; at the boundaries 29 gives 1, 30 gives
  2, 119 gives 2, 120 gives 3, 239 gives 3 and 240 gives 4. The level of a cell is that
  function of the minutes of its day.
\<close>

theorem getLevel_table:
  "getLevel m = (if m = 0 then 0 else if m < 30 then 1 else if m < 120 then 2
                 else if m < 240 then 3 else 4)
   \<and> getLevel 0 = 0 \<and> getLevel 29 = 1 \<and> getLevel 30 = 2 \<and> getLevel 119 = 2
   \<and> getLevel 120 = 3 \<and> getLevel 239 = 3 \<and> getLevel 240 = 4
   \<and> cellLevel (mkCell ld col row ds) = getLevel (orZero (minutesByDate ld ds))"
  by (simp add: getLevel_def mkCell_def Let_def)

end
